theory Spec2Isabelle
  imports Main
begin

section \<open>Persistent data\<close>

text \<open>
  The approval-workflow routes and the bulk-booking routes work on five tables of the
  relational store. Rows are records; a table is the list of its rows. Primary keys are
  opaque: the store draws them from a counter (\<open>nextId\<close>), where the ORM draws a fresh
  random key. Timestamps are natural numbers. Columns that no handler below reads or
  branches on (title, justification, estimatedValue, requestData, dueDate, createdAt,
  updatedAt, the denormalised patient fields) are left out of the rows.
\<close>

type_synonym ident = nat
type_synonym time = nat

datatype workflow_status = W_PENDING | W_IN_PROGRESS | W_APPROVED | W_REJECTED | W_CANCELLED

datatype step_status = S_PENDING | S_IN_PROGRESS | S_APPROVED | S_REJECTED | S_SKIPPED

datatype bulk_booking_status = B_PROCESSING | B_COMPLETED | B_FAILED | B_CANCELLED

datatype bulk_item_status = I_PENDING | I_SUCCESS | I_FAILED

record approval_workflow =
  w_id :: ident
  requestType :: string
  requestId :: string
  requesterId :: ident
  currentStep :: nat
  totalSteps :: nat
  w_status :: workflow_status
  priority :: string
  w_description :: string
  w_completedAt :: "time option"
  cancellationReason :: "string option"

record workflow_step =
  s_id :: ident
  workflowId :: ident
  stepOrder :: nat
  stepName :: string
  s_description :: "string option"
  approverId :: "ident option"
  isOptional :: bool
  s_status :: step_status
  comments :: "string option"
  approverNotes :: "string option"
  s_processedAt :: "time option"
  processedBy :: "ident option"

record customer =
  c_id :: ident
  c_agentId :: ident

record bulk_booking =
  b_id :: ident
  batchNumber :: time
  b_agentId :: ident
  b_customerId :: ident
  batchName :: string
  b_description :: "string option"
  totalItems :: nat
  successfulItems :: nat
  failedItems :: nat
  b_status :: bulk_booking_status
  b_completedAt :: "time option"
  b_notes :: "string option"

record bulk_booking_item =
  i_id :: ident
  bulkBookingId :: ident
  sequenceNumber :: nat
  i_doctorId :: ident
  i_hospitalId :: ident
  appointmentDate :: time
  appointmentTime :: string
  i_notes :: "string option"
  i_status :: bulk_item_status
  appointmentId :: "ident option"
  errorMessage :: "string option"
  i_processedAt :: "time option"

record db =
  nextId :: ident
  agents :: "ident list"
  doctors :: "ident list"
  hospitals :: "ident list"
  customers :: "customer list"
  approvalWorkflows :: "approval_workflow list"
  workflowSteps :: "workflow_step list"
  bulkBookings :: "bulk_booking list"
  bulkBookingItems :: "bulk_booking_item list"

section \<open>The gateway and the replies\<close>

text \<open>
  Every handler runs inside \<open>try { ... } catch\<close>: a call of the ORM that throws ends the
  handler with status 500, keeping whatever was written before. The environment of one
  request says what \<open>new Date()\<close> reads, which ORM calls throw, and, for the batch
  processor, how the attempt to book one item ends.
\<close>

datatype gateway_call =
    StepFindFirst | StepUpdate | WorkflowUpdate | WorkflowFindUnique
  | WorkflowCreate | WorkflowFindFirst | WorkflowCancelUpdate
  | CustomerFindFirst | BulkBookingCreate
  | BulkBookingFindUnique | BulkBookingMarkProcessing | ItemFindMany
  | BulkBookingFinalUpdate | BulkBookingFailureUpdate
  | BulkBookingFindFirst | BulkBookingCancelUpdate
  | ItemUpdateMany | BulkBookingReopenUpdate

datatype attempt =
    Booked ident
  | SimulatedFailure
  | Threw string
  | HandlerThrew

record env =
  now :: time
  throws :: "gateway_call \<Rightarrow> bool"
  attempt :: "bulk_booking_item \<Rightarrow> attempt"

datatype 'a reply = Reject nat string | Accept nat 'a

abbreviation internal_error :: "'a reply" where
  "internal_error \<equiv> Reject 500 ''Internal server error''"

definition status_code :: "'a reply \<Rightarrow> nat" where
  "status_code r = (case r of Reject n _ \<Rightarrow> n | Accept n _ \<Rightarrow> n)"

text \<open>JavaScript's \<open>!x\<close> on an optional string: true for undefined and for the empty string.\<close>

definition falsy :: "string option \<Rightarrow> bool" where
  "falsy x = (case x of None \<Rightarrow> True | Some s \<Rightarrow> s = [])"

text \<open>The ORM writes a column only when the update names a defined value for it.\<close>

definition assign :: "'a option \<Rightarrow> 'a option \<Rightarrow> 'a option" where
  "assign new old = (case new of None \<Rightarrow> old | Some v \<Rightarrow> Some v)"

text \<open>The column types of the enums: a string outside the enum makes the ORM throw.\<close>

definition StepStatus :: "string \<Rightarrow> step_status option" where
  "StepStatus s =
     (if s = ''PENDING'' then Some S_PENDING
      else if s = ''IN_PROGRESS'' then Some S_IN_PROGRESS
      else if s = ''APPROVED'' then Some S_APPROVED
      else if s = ''REJECTED'' then Some S_REJECTED
      else if s = ''SKIPPED'' then Some S_SKIPPED
      else None)"

definition WorkflowType :: "string list" where
  "WorkflowType = [''APPOINTMENT_CANCELLATION'', ''REFUND_REQUEST'', ''SPECIAL_DISCOUNT'',
     ''EMERGENCY_BOOKING'', ''BULK_BOOKING_APPROVAL'', ''CUSTOMER_COMPLAINT'']"

definition WorkflowPriority :: "string list" where
  "WorkflowPriority = [''LOW'', ''MEDIUM'', ''HIGH'', ''URGENT'']"

section \<open>Approval workflows\<close>

subsection \<open>Creating a workflow\<close>

record step_input =
  si_stepName :: "string option"
  si_description :: "string option"
  si_isOptional :: "bool option"
  si_approverId :: "ident option"

record create_workflow_request =
  cw_agent :: "ident option"
  cw_requestType :: "string option"
  cw_requestId :: "string option"
  cw_priority :: "string option"
  cw_description :: "string option"
  cw_steps :: "step_input list option"

text \<open>
  One row of the nested \<open>steps.create\<close>: \<open>stepOrder = index + 1\<close>, the status column takes
  its default PENDING. The row's key is the store's counter plus the position.
\<close>

definition new_step :: "ident \<Rightarrow> ident \<Rightarrow> nat \<Rightarrow> step_input \<Rightarrow> workflow_step" where
  "new_step wid base index step =
     \<lparr> s_id = base + index, workflowId = wid, stepOrder = index + 1,
       stepName = the (si_stepName step), s_description = si_description step,
       approverId = si_approverId step,
       isOptional = (case si_isOptional step of None \<Rightarrow> False | Some b \<Rightarrow> b),
       s_status = S_PENDING, comments = None, approverNotes = None,
       s_processedAt = None, processedBy = None \<rparr>"

definition new_steps :: "ident \<Rightarrow> ident \<Rightarrow> step_input list \<Rightarrow> workflow_step list" where
  "new_steps wid base steps = map (\<lambda>(index, step). new_step wid base index step) (enumerate 0 steps)"

text \<open>
  What makes the nested create throw as a whole: a gateway failure, a request type or
  priority outside its enum, a step without the required name, a requester or approver
  that is no agent.
\<close>

definition create_rejected :: "env \<Rightarrow> db \<Rightarrow> ident \<Rightarrow> string \<Rightarrow> string \<Rightarrow> step_input list \<Rightarrow> bool" where
  "create_rejected e d agentId rtype prio steps =
     (throws e WorkflowCreate \<or> rtype \<notin> set WorkflowType \<or> prio \<notin> set WorkflowPriority
      \<or> agentId \<notin> set (agents d)
      \<or> (\<exists>step \<in> set steps. si_stepName step = None)
      \<or> (\<exists>step \<in> set steps. case si_approverId step of None \<Rightarrow> False | Some a \<Rightarrow> a \<notin> set (agents d)))"

definition createWorkflow ::
  "env \<Rightarrow> db \<Rightarrow> create_workflow_request \<Rightarrow> (approval_workflow \<times> workflow_step list) reply \<times> db" where
  "createWorkflow e d r =
     (case cw_agent r of
        None \<Rightarrow> (Reject 401 ''Unauthorized'', d)
      | Some agentId \<Rightarrow>
          if falsy (cw_requestType r) \<or> falsy (cw_requestId r) \<or> falsy (cw_description r)
             \<or> cw_steps r = None
          then (Reject 400 ''Missing required fields or invalid steps array'', d)
          else
            let steps = the (cw_steps r);
                rtype = the (cw_requestType r);
                prio = (if falsy (cw_priority r) then ''MEDIUM'' else the (cw_priority r))
            in
            if length steps = 0
            then (Reject 400 ''At least one approval step is required'', d)
            else if create_rejected e d agentId rtype prio steps
            then (internal_error, d)
            else
              let wid = nextId d;
                  workflow = \<lparr> w_id = wid, requestType = rtype,
                               requestId = the (cw_requestId r), requesterId = agentId,
                               currentStep = 1, totalSteps = length steps,
                               w_status = W_PENDING, priority = prio,
                               w_description = the (cw_description r),
                               w_completedAt = None, cancellationReason = None \<rparr>;
                  rows = new_steps wid (wid + 1) steps
              in (Accept 201 (workflow, rows),
                  d\<lparr> nextId := wid + 1 + length steps,
                     approvalWorkflows := approvalWorkflows d @ [workflow],
                     workflowSteps := workflowSteps d @ rows \<rparr>))"

subsection \<open>Deciding a step\<close>

record decide_request =
  ds_agent :: "ident option"
  ds_workflowId :: ident
  ds_stepId :: ident
  ds_status :: "string option"
  ds_comments :: "string option"
  ds_approverNotes :: "string option"

text \<open>The object \<open>workflowUpdate\<close>: a key is present when its field is \<open>Some\<close>.\<close>

record workflow_update =
  wu_currentStep :: "nat option"
  wu_status :: "workflow_status option"
  wu_completedAt :: "time option"

definition workflowUpdate :: "env \<Rightarrow> string \<Rightarrow> workflow_step \<Rightarrow> approval_workflow \<Rightarrow> workflow_update" where
  "workflowUpdate e status step workflow =
     (if status = ''APPROVED'' then
        (if stepOrder step < totalSteps workflow
         then \<lparr> wu_currentStep = Some (stepOrder step + 1), wu_status = None, wu_completedAt = None \<rparr>
         else \<lparr> wu_currentStep = None, wu_status = Some W_APPROVED, wu_completedAt = Some (now e) \<rparr>)
      else if status = ''REJECTED'' then
        \<lparr> wu_currentStep = None, wu_status = Some W_REJECTED, wu_completedAt = Some (now e) \<rparr>
      else \<lparr> wu_currentStep = None, wu_status = None, wu_completedAt = None \<rparr>)"

definition has_keys :: "workflow_update \<Rightarrow> bool" where
  "has_keys u = (wu_currentStep u \<noteq> None \<or> wu_status u \<noteq> None \<or> wu_completedAt u \<noteq> None)"

definition apply_workflow_update :: "workflow_update \<Rightarrow> approval_workflow \<Rightarrow> approval_workflow" where
  "apply_workflow_update u w =
     w\<lparr> currentStep := (case wu_currentStep u of None \<Rightarrow> currentStep w | Some k \<Rightarrow> k),
        w_status := (case wu_status u of None \<Rightarrow> w_status w | Some s \<Rightarrow> s),
        w_completedAt := assign (wu_completedAt u) (w_completedAt w) \<rparr>"

definition update_step :: "ident \<Rightarrow> (workflow_step \<Rightarrow> workflow_step) \<Rightarrow> db \<Rightarrow> db" where
  "update_step sid f d = d\<lparr> workflowSteps := map (\<lambda>s. if s_id s = sid then f s else s) (workflowSteps d) \<rparr>"

definition update_workflow :: "ident \<Rightarrow> (approval_workflow \<Rightarrow> approval_workflow) \<Rightarrow> db \<Rightarrow> db" where
  "update_workflow wid f d =
     d\<lparr> approvalWorkflows := map (\<lambda>w. if w_id w = wid then f w else w) (approvalWorkflows d) \<rparr>"

definition find_workflow :: "db \<Rightarrow> ident \<Rightarrow> approval_workflow option" where
  "find_workflow d wid = find (\<lambda>w. w_id w = wid) (approvalWorkflows d)"

definition steps_of :: "db \<Rightarrow> ident \<Rightarrow> workflow_step list" where
  "steps_of d wid = sort_key stepOrder (filter (\<lambda>s. workflowId s = wid) (workflowSteps d))"

text \<open>\<open>findUnique\<close> with \<open>include: { steps: { orderBy: { stepOrder: 'asc' } } }\<close>.\<close>

definition workflow_with_steps :: "db \<Rightarrow> ident \<Rightarrow> (approval_workflow \<times> workflow_step list) option" where
  "workflow_with_steps d wid = map_option (\<lambda>w. (w, steps_of d wid)) (find_workflow d wid)"

definition decided :: "env \<Rightarrow> ident \<Rightarrow> step_status \<Rightarrow> decide_request \<Rightarrow> workflow_step \<Rightarrow> workflow_step" where
  "decided e agentId st r s =
     s\<lparr> s_status := st,
        comments := assign (ds_comments r) (comments s),
        approverNotes := assign (ds_approverNotes r) (approverNotes s),
        s_processedAt := Some (now e),
        processedBy := Some agentId \<rparr>"

definition decideStep ::
  "env \<Rightarrow> db \<Rightarrow> decide_request \<Rightarrow> (approval_workflow \<times> workflow_step list) option reply \<times> db" where
  "decideStep e d r =
     (case ds_agent r of
        None \<Rightarrow> (Reject 401 ''Unauthorized'', d)
      | Some agentId \<Rightarrow>
          if falsy (ds_status r) then (Reject 400 ''Status is required'', d)
          else if throws e StepFindFirst then (internal_error, d)
          else
           (case find (\<lambda>s. s_id s = ds_stepId r \<and> workflowId s = ds_workflowId r
                            \<and> approverId s = Some agentId) (workflowSteps d) of
              None \<Rightarrow> (Reject 404 ''Step not found or you are not authorized to approve this step'', d)
            | Some step \<Rightarrow>
               (case find_workflow d (workflowId step) of
                  None \<Rightarrow> (internal_error, d)
                | Some workflow \<Rightarrow>
                    if currentStep workflow \<noteq> stepOrder step
                    then (Reject 400 ''This step is not currently active'', d)
                    else
                     (case StepStatus (the (ds_status r)) of
                        None \<Rightarrow> (internal_error, d)
                      | Some st \<Rightarrow>
                          if throws e StepUpdate then (internal_error, d)
                          else
                            let d1 = update_step (ds_stepId r) (decided e agentId st r) d;
                                u = workflowUpdate e (the (ds_status r)) step workflow
                            in
                            if has_keys u \<and> throws e WorkflowUpdate then (internal_error, d1)
                            else
                              let d2 = (if has_keys u
                                        then update_workflow (ds_workflowId r) (apply_workflow_update u) d1
                                        else d1)
                              in
                              if throws e WorkflowFindUnique then (internal_error, d2)
                              else (Accept 200 (workflow_with_steps d2 (ds_workflowId r)), d2)))))"

subsection \<open>Cancelling a workflow\<close>

record cancel_workflow_request =
  cn_agent :: "ident option"
  cn_workflowId :: ident
  cn_reason :: "string option"

definition cancelWorkflow ::
  "env \<Rightarrow> db \<Rightarrow> cancel_workflow_request \<Rightarrow> (approval_workflow \<times> workflow_step list) option reply \<times> db" where
  "cancelWorkflow e d r =
     (case cn_agent r of
        None \<Rightarrow> (Reject 401 ''Unauthorized'', d)
      | Some agentId \<Rightarrow>
          if throws e WorkflowFindFirst then (internal_error, d)
          else
           (case find (\<lambda>w. w_id w = cn_workflowId r \<and> requesterId w = agentId) (approvalWorkflows d) of
              None \<Rightarrow> (Reject 404 ''Workflow not found'', d)
            | Some workflow \<Rightarrow>
                if w_status workflow \<noteq> W_PENDING \<and> w_status workflow \<noteq> W_IN_PROGRESS
                then (Reject 400 ''Can only cancel pending or in-progress workflows'', d)
                else if throws e WorkflowCancelUpdate then (internal_error, d)
                else
                  let d1 = update_workflow (cn_workflowId r)
                             (\<lambda>w. w\<lparr> w_status := W_CANCELLED, w_completedAt := Some (now e),
                                     cancellationReason := assign (cn_reason r) (cancellationReason w) \<rparr>) d
                  in (Accept 200 (workflow_with_steps d1 (cn_workflowId r)), d1)))"

section \<open>Bulk bookings\<close>

subsection \<open>The batch processor\<close>

definition find_batch :: "db \<Rightarrow> ident \<Rightarrow> bulk_booking option" where
  "find_batch d bid = find (\<lambda>b. b_id b = bid) (bulkBookings d)"

definition items_of :: "db \<Rightarrow> ident \<Rightarrow> bulk_booking_item list" where
  "items_of d bid = filter (\<lambda>i. bulkBookingId i = bid) (bulkBookingItems d)"

text \<open>\<open>include: { items: { where: { status: 'PENDING' } } }\<close>\<close>

definition pending_items :: "db \<Rightarrow> ident \<Rightarrow> bulk_booking_item list" where
  "pending_items d bid = filter (\<lambda>i. i_status i = I_PENDING) (items_of d bid)"

definition update_batch :: "ident \<Rightarrow> (bulk_booking \<Rightarrow> bulk_booking) \<Rightarrow> db \<Rightarrow> db" where
  "update_batch bid f d = d\<lparr> bulkBookings := map (\<lambda>b. if b_id b = bid then f b else b) (bulkBookings d) \<rparr>"

definition update_item :: "ident \<Rightarrow> (bulk_booking_item \<Rightarrow> bulk_booking_item) \<Rightarrow> db \<Rightarrow> db" where
  "update_item iid f d =
     d\<lparr> bulkBookingItems := map (\<lambda>i. if i_id i = iid then f i else i) (bulkBookingItems d) \<rparr>"

definition succeeded :: "env \<Rightarrow> ident \<Rightarrow> bulk_booking_item \<Rightarrow> bulk_booking_item" where
  "succeeded e aid i = i\<lparr> i_status := I_SUCCESS, appointmentId := Some aid, i_processedAt := Some (now e) \<rparr>"

definition failed :: "env \<Rightarrow> string \<Rightarrow> bulk_booking_item \<Rightarrow> bulk_booking_item" where
  "failed e msg i = i\<lparr> i_status := I_FAILED, errorMessage := Some msg, i_processedAt := Some (now e) \<rparr>"

text \<open>
  The loop over the items that were PENDING when the batch was loaded. The body is a
  \<open>try\<close> whose \<open>catch\<close> marks the item FAILED; only a failure of that last
  write leaves the loop (\<open>Inl\<close>, with the store as it is then).
  \<^item> \<open>Booked aid\<close>: the draw succeeded, the appointment \<open>aid\<close> was created and the
    item was written;
  \<^item> \<open>SimulatedFailure\<close>: the draw failed and the item was written;
  \<^item> \<open>Threw msg\<close>: a call inside the \<open>try\<close> threw \<open>msg\<close>, and the handler's write
    went through;
  \<^item> \<open>HandlerThrew\<close>: the handler's write threw as well.
\<close>

fun processItems :: "env \<Rightarrow> bulk_booking_item list \<Rightarrow> db \<Rightarrow> db + db" where
  "processItems e [] d = Inr d"
| "processItems e (item # items) d =
     (case attempt e item of
        Booked aid \<Rightarrow> processItems e items (update_item (i_id item) (succeeded e aid) d)
      | SimulatedFailure \<Rightarrow>
          processItems e items (update_item (i_id item) (failed e ''Simulated booking failure'') d)
      | Threw msg \<Rightarrow> processItems e items (update_item (i_id item) (failed e msg) d)
      | HandlerThrew \<Rightarrow> Inl d)"

text \<open>The outer \<open>try\<close> block: \<open>Inl\<close> when something in it threw.\<close>

definition process_body :: "env \<Rightarrow> db \<Rightarrow> ident \<Rightarrow> db + db" where
  "process_body e d bulkBookingId' =
     (if throws e BulkBookingFindUnique then Inl d
      else
        case find_batch d bulkBookingId' of
          None \<Rightarrow> Inr d
        | Some bulkBooking \<Rightarrow>
            let items = pending_items d bulkBookingId' in
            if throws e BulkBookingMarkProcessing then Inl d
            else
              (case processItems e items
                      (update_batch bulkBookingId' (\<lambda>b. b\<lparr> b_status := B_PROCESSING \<rparr>) d) of
                 Inl d2 \<Rightarrow> Inl d2
               | Inr d2 \<Rightarrow>
                   if throws e ItemFindMany then Inl d2
                   else
                     let updatedItems = items_of d2 bulkBookingId';
                         successCount = length (filter (\<lambda>i. i_status i = I_SUCCESS) updatedItems);
                         failedCount = length (filter (\<lambda>i. i_status i = I_FAILED) updatedItems);
                         finalStatus = (if failedCount = length updatedItems then B_FAILED
                                        else B_COMPLETED)
                     in
                     if throws e BulkBookingFinalUpdate then Inl d2
                     else Inr (update_batch bulkBookingId'
                                 (\<lambda>b. b\<lparr> b_status := finalStatus, successfulItems := successCount,
                                         failedItems := failedCount,
                                         b_completedAt := Some (now e) \<rparr>) d2)))"

text \<open>
  The \<open>catch\<close> of the outer block marks the batch FAILED and sets \<open>completedAt\<close>; when
  that write throws too, nothing catches it and the store stays as it is.
\<close>

definition processaBulkBooking :: "env \<Rightarrow> db \<Rightarrow> ident \<Rightarrow> db" where
  "processaBulkBooking e d bulkBookingId' =
     (case process_body e d bulkBookingId' of
        Inr d' \<Rightarrow> d'
      | Inl d' \<Rightarrow>
          if throws e BulkBookingFailureUpdate then d'
          else update_batch bulkBookingId'
                 (\<lambda>b. b\<lparr> b_status := B_FAILED, b_completedAt := Some (now e) \<rparr>) d')"

subsection \<open>Submitting a batch\<close>

record appointment_input =
  ai_doctorId :: ident
  ai_hospitalId :: ident
  ai_appointmentDate :: time
  ai_appointmentTime :: string
  ai_notes :: "string option"

record create_bulk_request =
  cb_agent :: "ident option"
  cb_customerId :: "ident option"
  cb_batchName :: "string option"
  cb_description :: "string option"
  cb_appointments :: "appointment_input list option"

definition new_item :: "ident \<Rightarrow> ident \<Rightarrow> nat \<Rightarrow> appointment_input \<Rightarrow> bulk_booking_item" where
  "new_item bid base index apt =
     \<lparr> i_id = base + index, bulkBookingId = bid, sequenceNumber = index + 1,
       i_doctorId = ai_doctorId apt, i_hospitalId = ai_hospitalId apt,
       appointmentDate = ai_appointmentDate apt, appointmentTime = ai_appointmentTime apt,
       i_notes = ai_notes apt, i_status = I_PENDING, appointmentId = None,
       errorMessage = None, i_processedAt = None \<rparr>"

definition new_items :: "ident \<Rightarrow> ident \<Rightarrow> appointment_input list \<Rightarrow> bulk_booking_item list" where
  "new_items bid base appointments =
     map (\<lambda>(index, apt). new_item bid base index apt) (enumerate 0 appointments)"

text \<open>
  What makes the nested create throw as a whole: a gateway failure, a batch number
  (\<open>BULK-\<close> and the clock reading; the row keeps the reading) that another batch has,
  an agent, doctor or hospital that does not exist.
\<close>

definition bulk_create_rejected :: "env \<Rightarrow> db \<Rightarrow> ident \<Rightarrow> appointment_input list \<Rightarrow> bool" where
  "bulk_create_rejected e d agentId appointments =
     (throws e BulkBookingCreate \<or> (\<exists>b \<in> set (bulkBookings d). batchNumber b = now e)
      \<or> agentId \<notin> set (agents d)
      \<or> (\<exists>apt \<in> set appointments. ai_doctorId apt \<notin> set (doctors d))
      \<or> (\<exists>apt \<in> set appointments. ai_hospitalId apt \<notin> set (hospitals d)))"

text \<open>
  \<open>prisma.bulkBooking.create\<close> with its nested \<open>items.create\<close>: the new batch, its items
  and the store with them. The status and the counters take the column defaults.
\<close>

definition bulkBooking_create ::
  "env \<Rightarrow> db \<Rightarrow> ident \<Rightarrow> ident \<Rightarrow> create_bulk_request \<Rightarrow> appointment_input list
   \<Rightarrow> bulk_booking \<times> bulk_booking_item list \<times> db" where
  "bulkBooking_create e d agentId customerId r appointments =
     (let bid = nextId d;
          bulkBooking = \<lparr> b_id = bid, batchNumber = now e, b_agentId = agentId,
                          b_customerId = customerId,
                          batchName = the (cb_batchName r),
                          b_description = cb_description r,
                          totalItems = length appointments,
                          successfulItems = 0, failedItems = 0,
                          b_status = B_PROCESSING, b_completedAt = None,
                          b_notes = None \<rparr>;
          rows = new_items bid (bid + 1) appointments
      in (bulkBooking, rows,
          d\<lparr> nextId := bid + 1 + length appointments,
             bulkBookings := bulkBookings d @ [bulkBooking],
             bulkBookingItems := bulkBookingItems d @ rows \<rparr>))"

text \<open>
  The handler starts the processor on the new batch without waiting for it and replies
  with the batch as it was created; the store it leaves is the one after the processor.
\<close>

definition createBulkBooking ::
  "env \<Rightarrow> db \<Rightarrow> create_bulk_request \<Rightarrow> (bulk_booking \<times> bulk_booking_item list) reply \<times> db" where
  "createBulkBooking e d r =
     (case cb_agent r of
        None \<Rightarrow> (Reject 401 ''Unauthorized'', d)
      | Some agentId \<Rightarrow>
          if cb_customerId r = None \<or> falsy (cb_batchName r) \<or> cb_appointments r = None
          then (Reject 400 ''Missing required fields or invalid appointments array'', d)
          else
            let customerId = the (cb_customerId r);
                appointments = the (cb_appointments r)
            in
            if length appointments = 0
            then (Reject 400 ''At least one appointment is required'', d)
            else if throws e CustomerFindFirst then (internal_error, d)
            else
             (case find (\<lambda>c. c_id c = customerId \<and> c_agentId c = agentId) (customers d) of
                None \<Rightarrow> (Reject 404 ''Customer not found'', d)
              | Some customer \<Rightarrow>
                  if bulk_create_rejected e d agentId appointments then (internal_error, d)
                  else
                    (case bulkBooking_create e d agentId customerId r appointments of
                       (bulkBooking, rows, d1) \<Rightarrow>
                         (Accept 201 (bulkBooking, rows),
                          processaBulkBooking e d1 (b_id bulkBooking)))))"

subsection \<open>Cancelling and retrying a batch\<close>

record cancel_bulk_request =
  xb_agent :: "ident option"
  xb_bulkBookingId :: ident
  xb_reason :: "string option"

definition cancelBulkBooking :: "env \<Rightarrow> db \<Rightarrow> cancel_bulk_request \<Rightarrow> bulk_booking option reply \<times> db" where
  "cancelBulkBooking e d r =
     (case xb_agent r of
        None \<Rightarrow> (Reject 401 ''Unauthorized'', d)
      | Some agentId \<Rightarrow>
          if throws e BulkBookingFindFirst then (internal_error, d)
          else
           (case find (\<lambda>b. b_id b = xb_bulkBookingId r \<and> b_agentId b = agentId) (bulkBookings d) of
              None \<Rightarrow> (Reject 404 ''Bulk booking not found'', d)
            | Some bulkBooking \<Rightarrow>
                if b_status bulkBooking = B_COMPLETED
                then (Reject 400 ''Cannot cancel completed bulk booking'', d)
                else if throws e BulkBookingCancelUpdate then (internal_error, d)
                else
                  let d1 = update_batch (xb_bulkBookingId r)
                             (\<lambda>b. b\<lparr> b_status := B_CANCELLED, b_completedAt := Some (now e),
                                     b_notes := Some (if falsy (xb_reason r) then ''Cancelled by agent''
                                                      else ''Cancelled: '' @ the (xb_reason r)) \<rparr>) d
                  in (Accept 200 (find_batch d1 (xb_bulkBookingId r)), d1)))"




subsection \<open>The validation rule for bulk appointment booking\<close>


section \<open>Vocabulary of the properties\<close>

text \<open>A request during which no call of the gateway throws.\<close>

definition healthy :: "env \<Rightarrow> bool" where
  "healthy e = (\<forall>c. \<not> throws e c)"

text \<open>... and during which, moreover, no item leaves the loop of the batch processor.\<close>

definition settles :: "env \<Rightarrow> bool" where
  "settles e = (healthy e \<and> (\<forall>i. attempt e i \<noteq> HandlerThrew))"

text \<open>
  The primary-key and foreign-key constraints the workflow tables are under: step keys are
  unique, and every key in use was drawn from the counter.
\<close>

definition store_ok :: "db \<Rightarrow> bool" where
  "store_ok d =
     (distinct (map s_id (workflowSteps d))
      \<and> (\<forall>s \<in> set (workflowSteps d). s_id s < nextId d \<and> workflowId s < nextId d)
      \<and> (\<forall>w \<in> set (approvalWorkflows d). w_id w < nextId d))"

text \<open>The request by which the approver of step \<open>s\<close> gives the verdict \<open>v\<close> on it.\<close>

definition request_for :: "string \<Rightarrow> workflow_step \<Rightarrow> decide_request \<Rightarrow> bool" where
  "request_for v s r =
     (ds_agent r \<noteq> None \<and> ds_agent r = approverId s \<and> ds_workflowId r = workflowId s
      \<and> ds_stepId r = s_id s \<and> ds_status r = Some v)"

definition decision_by_approver :: "string \<Rightarrow> workflow_step \<Rightarrow> env \<times> decide_request \<Rightarrow> bool" where
  "decision_by_approver v s call = (healthy (fst call) \<and> request_for v s (snd call))"

text \<open>A sequence of decisions, each in its own environment, one after the other.\<close>

fun decideAll :: "db \<Rightarrow> (env \<times> decide_request) list \<Rightarrow> db" where
  "decideAll d [] = d"
| "decideAll d ((e, r) # calls) = decideAll (snd (decideStep e d r)) calls"

fun in_order :: "nat \<Rightarrow> workflow_step list \<Rightarrow> bool" where
  "in_order k [] = True"
| "in_order k (s # ss) = (stepOrder s = k \<and> in_order (Suc k) ss)"

text \<open>
  The workflow \<open>wid\<close> waits for the steps \<open>ss\<close>: they are rows of the table, in step order
  from \<open>currentStep\<close> up to \<open>totalSteps\<close>, and every step of the workflow beyond
  \<open>currentStep\<close> is PENDING.
\<close>

definition awaiting :: "db \<Rightarrow> ident \<Rightarrow> workflow_step list \<Rightarrow> bool" where
  "awaiting d wid ss =
     (distinct (map s_id (workflowSteps d)) \<and> set ss \<subseteq> set (workflowSteps d)
      \<and> (\<forall>s \<in> set ss. workflowId s = wid)
      \<and> (\<exists>w. find_workflow d wid = Some w
             \<and> in_order (currentStep w) ss \<and> currentStep w + length ss = Suc (totalSteps w)
             \<and> (\<forall>s \<in> set (workflowSteps d).
                   workflowId s = wid \<and> currentStep w < stepOrder s \<longrightarrow> s_status s = S_PENDING)))"

text \<open>How one row of the item table may differ after the loop over \<open>items\<close>.\<close>

definition resolved :: "bulk_booking_item list \<Rightarrow> bulk_booking_item \<Rightarrow> bulk_booking_item \<Rightarrow> bool" where
  "resolved items x x' =
     (i_id x' = i_id x \<and> bulkBookingId x' = bulkBookingId x
      \<and> (if i_id x \<in> i_id ` set items then i_status x' \<noteq> I_PENDING else x' = x))"

text \<open>The last write of the batch processor, as a function of the items it read back.\<close>

definition final_update :: "env \<Rightarrow> bulk_booking_item list \<Rightarrow> bulk_booking \<Rightarrow> bulk_booking" where
  "final_update e updatedItems = (\<lambda>b.
     b\<lparr> b_status := (if length (filter (\<lambda>i. i_status i = I_FAILED) updatedItems) = length updatedItems
                     then B_FAILED else B_COMPLETED),
        successfulItems := length (filter (\<lambda>i. i_status i = I_SUCCESS) updatedItems),
        failedItems := length (filter (\<lambda>i. i_status i = I_FAILED) updatedItems),
        b_completedAt := Some (now e) \<rparr>)"



section \<open>Sample data\<close>

definition quiet :: "time \<Rightarrow> env" where
  "quiet t = \<lparr> now = t, throws = (\<lambda>_. False), attempt = (\<lambda>i. Booked (1000 + i_id i)) \<rparr>"

definition office :: db where
  "office = \<lparr> nextId = 10, agents = [1, 2, 3], doctors = [4], hospitals = [5],
     customers = [\<lparr> c_id = 6, c_agentId = 1 \<rparr>],
     approvalWorkflows = [], workflowSteps = [], bulkBookings = [], bulkBookingItems = [] \<rparr>"

definition step_by :: "ident \<Rightarrow> bool \<Rightarrow> step_input" where
  "step_by a opt = \<lparr> si_stepName = Some ''review'', si_description = None,
      si_isOptional = Some opt, si_approverId = Some a \<rparr>"

definition refund_request :: "step_input list \<Rightarrow> create_workflow_request" where
  "refund_request steps = \<lparr> cw_agent = Some 1, cw_requestType = Some ''REFUND_REQUEST'',
     cw_requestId = Some ''r-1'', cw_priority = None, cw_description = Some ''refund'',
     cw_steps = Some steps \<rparr>"

definition verdict :: "ident \<Rightarrow> ident \<Rightarrow> ident \<Rightarrow> string \<Rightarrow> decide_request" where
  "verdict a wid sid v = \<lparr> ds_agent = Some a, ds_workflowId = wid, ds_stepId = sid,
     ds_status = Some v, ds_comments = None, ds_approverNotes = None \<rparr>"

text \<open>Agent 1 asks for a refund that agent 2 and then, optionally, agent 3 must approve.\<close>

definition two_steps :: db where
  "two_steps = snd (createWorkflow (quiet 100) office (refund_request [step_by 2 False, step_by 3 True]))"

text \<open>The same, except that the gateway call \<open>c\<close> throws.\<close>

definition outage :: "gateway_call \<Rightarrow> time \<Rightarrow> env" where
  "outage c t = \<lparr> now = t, throws = (\<lambda>x. x = c), attempt = (\<lambda>i. Booked (1000 + i_id i)) \<rparr>"

definition refund_workflow :: approval_workflow where
  "refund_workflow = \<lparr> w_id = 10, requestType = ''REFUND_REQUEST'', requestId = ''r-1'',
     requesterId = 1, currentStep = 1, totalSteps = 2, w_status = W_PENDING,
     priority = ''MEDIUM'', w_description = ''refund'', w_completedAt = None,
     cancellationReason = None \<rparr>"

definition refund_step :: "nat \<Rightarrow> ident \<Rightarrow> bool \<Rightarrow> workflow_step" where
  "refund_step k a opt = \<lparr> s_id = 10 + k, workflowId = 10, stepOrder = k, stepName = ''review'',
     s_description = None, approverId = Some a, isOptional = opt, s_status = S_PENDING,
     comments = None, approverNotes = None, s_processedAt = None, processedBy = None \<rparr>"

definition approvals :: "(env \<times> decide_request) list" where
  "approvals = [(quiet 101, verdict 2 10 11 ''APPROVED''), (quiet 102, verdict 3 10 12 ''APPROVED'')]"

definition one_step :: db where
  "one_step = snd (createWorkflow (quiet 100) office (refund_request [step_by 2 False]))"

definition cancel_by :: "ident \<Rightarrow> ident \<Rightarrow> cancel_workflow_request" where
  "cancel_by a wid = \<lparr> cn_agent = Some a, cn_workflowId = wid, cn_reason = Some ''withdrawn'' \<rparr>"

text \<open>
  Environments for the batch processor: the first item is booked and the others fail the
  draw; every item fails the draw.
\<close>

definition mixed :: "time \<Rightarrow> env" where
  "mixed t = \<lparr> now = t, throws = (\<lambda>_. False),
               attempt = (\<lambda>i. if sequenceNumber i = 1 then Booked 70 else SimulatedFailure) \<rparr>"

definition unlucky :: "time \<Rightarrow> env" where
  "unlucky t = \<lparr> now = t, throws = (\<lambda>_. False), attempt = (\<lambda>_. SimulatedFailure) \<rparr>"

text \<open>Agent 1 books visits for customer 6, with doctor 4 at hospital 5.\<close>

definition visit :: appointment_input where
  "visit = \<lparr> ai_doctorId = 4, ai_hospitalId = 5, ai_appointmentDate = 500,
             ai_appointmentTime = ''09:30'', ai_notes = None \<rparr>"

definition bulk_request :: "appointment_input list \<Rightarrow> create_bulk_request" where
  "bulk_request appointments = \<lparr> cb_agent = Some 1, cb_customerId = Some 6,
     cb_batchName = Some ''clinic day'', cb_description = None,
     cb_appointments = Some appointments \<rparr>"

text \<open>
  Three submissions of two visits: one that runs through; one where reading the items back
  throws; one where loading the batch throws, so that no item is attempted.
\<close>

definition booked :: db where
  "booked = snd (createBulkBooking (quiet 100) office (bulk_request [visit, visit]))"


definition unprocessed :: db where
  "unprocessed = snd (createBulkBooking (outage BulkBookingFindUnique 100) office (bulk_request [visit, visit]))"

definition cancel_batch :: "ident \<Rightarrow> ident \<Rightarrow> cancel_bulk_request" where
  "cancel_batch a bid = \<lparr> xb_agent = Some a, xb_bulkBookingId = bid, xb_reason = None \<rparr>"

text \<open>A batch of one visit that failed and was then cancelled.\<close>

definition called_off :: db where
  "called_off = snd (cancelBulkBooking (quiet 150)
                      (snd (createBulkBooking (unlucky 100) office (bulk_request [visit])))
                      (cancel_batch 1 10))"

section \<open>Properties of the approval workflows\<close>

subsection \<open>Reading and writing rows\<close>

lemma find_workflow_update_workflow:
  assumes "\<And>w. w_id (f w) = w_id w"
  shows "find_workflow (update_workflow wid f d) wid = map_option f (find_workflow d wid)"
proof -
  have "find (\<lambda>w. w_id w = wid) (map (\<lambda>w. if w_id w = wid then f w else w) ws)
        = map_option f (find (\<lambda>w. w_id w = wid) ws)" for ws
    by (induction ws) (simp_all add: assms)
  then show ?thesis by (simp add: find_workflow_def update_workflow_def)
qed

lemma find_workflow_update_step [simp]:
  "find_workflow (update_step sid f d) wid = find_workflow d wid"
  by (simp add: find_workflow_def update_step_def)

lemma w_id_apply_workflow_update [simp]: "w_id (apply_workflow_update u w) = w_id w"
  by (simp add: apply_workflow_update_def)

lemma StepStatus_APPROVED [simp]: "StepStatus ''APPROVED'' = Some S_APPROVED"
  by (simp add: StepStatus_def)

lemma StepStatus_REJECTED [simp]: "StepStatus ''REJECTED'' = Some S_REJECTED"
  by (simp add: StepStatus_def)

lemma find_by_key:
  assumes "distinct (map k xs)" and "x \<in> set xs" and "P x" and "\<And>y. P y \<Longrightarrow> k y = k x"
  shows "find P xs = Some x"
  using assms(1,2)
proof (induction xs)
  case Nil
  then show ?case by simp
next
  case (Cons y ys)
  show ?case
  proof (cases "P y")
    case True
    then have "k y = k x" by (rule assms(4))
    with Cons.prems have "y = x" by (auto simp: image_iff)
    with True show ?thesis by simp
  next
    case False
    with Cons.prems assms(3) have "x \<in> set ys" by auto
    moreover from Cons.prems have "distinct (map k ys)" by simp
    ultimately have "find P ys = Some x" by (rule Cons.IH[rotated])
    with False show ?thesis by simp
  qed
qed

lemma same_key_same_row:
  assumes "distinct (map k xs)" and "x \<in> set xs" and "y \<in> set xs" and "k x = k y"
  shows "x = y"
  using assms by (auto simp: distinct_map dest: inj_onD)

lemma workflowSteps_update_workflow [simp]:
  "workflowSteps (update_workflow wid f d) = workflowSteps d"
  by (simp add: update_workflow_def)

lemma s_id_decided [simp]: "s_id (decided e a st r s) = s_id s"
  by (simp add: decided_def)

lemma workflowId_decided [simp]: "workflowId (decided e a st r s) = workflowId s"
  by (simp add: decided_def)

lemma stepOrder_decided [simp]: "stepOrder (decided e a st r s) = stepOrder s"
  by (simp add: decided_def)

lemma ids_update_step [simp]:
  "map s_id (workflowSteps (update_step sid (decided e a st r) d)) = map s_id (workflowSteps d)"
  by (simp add: update_step_def comp_def cong: map_cong)

lemma in_order_above: "in_order k ss \<Longrightarrow> x \<in> set ss \<Longrightarrow> k \<le> stepOrder x"
  by (induction ss arbitrary: k) (auto dest: Suc_leD)

text \<open>The two writes of a decision by the approver of the step at the head of the queue.\<close>

lemma decideStep_head:
  assumes aw: "awaiting d wid (s # ss)" and h: "healthy e" and rq: "request_for v s r"
    and st: "StepStatus v = Some st" and w: "find_workflow d wid = Some w"
    and v: "v = ''APPROVED'' \<or> v = ''REJECTED''"
  shows "snd (decideStep e d r)
         = update_workflow wid (apply_workflow_update (workflowUpdate e v s w))
             (update_step (s_id s) (decided e (the (approverId s)) st r) d)"
proof -
  from rq obtain a where a: "ds_agent r = Some a" "approverId s = Some a"
    and r: "ds_workflowId r = workflowId s" "ds_stepId r = s_id s" "ds_status r = Some v"
    by (auto simp: request_for_def)
  from aw have d: "distinct (map s_id (workflowSteps d))" and s: "s \<in> set (workflowSteps d)"
    and wid: "workflowId s = wid"
    by (auto simp: awaiting_def)
  from aw w have k: "currentStep w = stepOrder s"
    by (auto simp: awaiting_def)
  have f: "find (\<lambda>x. s_id x = s_id s \<and> workflowId x = wid \<and> approverId x = Some a)
             (workflowSteps d) = Some s"
    using d s by (rule find_by_key) (simp_all add: a wid)
  have keys: "has_keys (workflowUpdate e v s w)"
    using v by (auto simp: has_keys_def workflowUpdate_def)
  from v have nf: "\<not> falsy (Some v)" by (auto simp: falsy_def)
  from h have nt: "\<And>c. \<not> throws e c" by (simp add: healthy_def)
  show ?thesis
    unfolding decideStep_def
    apply (simp only: a option.case r nf if_False nt f wid w k)
    apply (simp only: option.sel st option.case Let_def keys simp_thms if_True if_False nt snd_conv refl)
    done
qed


text \<open>What the table of steps looks like after the step write of a decision.\<close>

lemma steps_after_decision:
  assumes d: "distinct (map s_id (workflowSteps d))" and s: "s \<in> set (workflowSteps d)"
    and x: "x \<in> set (workflowSteps (update_step (s_id s) (decided e a st r) d))"
  shows "x = decided e a st r s \<or> (x \<in> set (workflowSteps d) \<and> s_id x \<noteq> s_id s)"
proof -
  from x obtain y where y: "y \<in> set (workflowSteps d)"
    and xy: "x = (if s_id y = s_id s then decided e a st r y else y)"
    by (auto simp: update_step_def)
  show ?thesis
  proof (cases "s_id y = s_id s")
    case True
    with d y s have "y = s" by (auto intro: same_key_same_row)
    with xy show ?thesis by simp
  next
    case False
    with xy y show ?thesis by simp
  qed
qed

lemma untouched_by_decision:
  assumes "x \<in> set (workflowSteps d)" and "s_id x \<noteq> sid"
  shows "x \<in> set (workflowSteps (update_step sid f d))"
  using assms by (force simp: update_step_def image_iff)

lemma awaiting_approve:
  assumes aw: "awaiting d wid (s # s' # ss)" and h: "healthy e" and rq: "request_for ''APPROVED'' s r"
  shows "awaiting (snd (decideStep e d r)) wid (s' # ss)"
proof -
  from aw obtain w where w: "find_workflow d wid = Some w"
    and ord: "in_order (currentStep w) (s # s' # ss)"
    and len: "currentStep w + length (s # s' # ss) = Suc (totalSteps w)"
    and pend: "\<forall>x \<in> set (workflowSteps d).
                 workflowId x = wid \<and> currentStep w < stepOrder x \<longrightarrow> s_status x = S_PENDING"
    and d: "distinct (map s_id (workflowSteps d))"
    and sub: "set (s # s' # ss) \<subseteq> set (workflowSteps d)"
    and wids: "\<forall>x \<in> set (s # s' # ss). workflowId x = wid"
    by (auto simp: awaiting_def)
  from ord have k: "stepOrder s = currentStep w"
    and rest: "in_order (Suc (currentStep w)) (s' # ss)"
    by simp_all
  from len k have lt: "stepOrder s < totalSteps w" by simp
  from sub have s: "s \<in> set (workflowSteps d)" by simp
  have above: "currentStep w < stepOrder x" if "x \<in> set (s' # ss)" for x
    using in_order_above[OF rest that] by simp
  let ?f = "decided e (the (approverId s)) S_APPROVED r"
  let ?d1 = "update_step (s_id s) ?f d"
  let ?d' = "snd (decideStep e d r)"
  have d': "?d' = update_workflow wid (apply_workflow_update (workflowUpdate e ''APPROVED'' s w)) ?d1"
    using aw h rq _ w by (rule decideStep_head) simp_all
  have u: "workflowUpdate e ''APPROVED'' s w
        = \<lparr> wu_currentStep = Some (stepOrder s + 1), wu_status = None, wu_completedAt = None \<rparr>"
    using lt by (simp add: workflowUpdate_def)
  have w': "find_workflow ?d' wid = Some (w\<lparr> currentStep := Suc (currentStep w) \<rparr>)"
    by (simp add: d' find_workflow_update_workflow w u k apply_workflow_update_def assign_def)
  have steps': "workflowSteps ?d' = workflowSteps ?d1"
    by (simp add: d')
  have other: "s_id x \<noteq> s_id s" if "x \<in> set (s' # ss)" for x
  proof
    assume "s_id x = s_id s"
    with d sub that s have "x = s" by (auto intro: same_key_same_row)
    with above[OF that] k show False by simp
  qed
  have "distinct (map s_id (workflowSteps ?d'))"
    using d by (simp add: d')
  moreover have "set (s' # ss) \<subseteq> set (workflowSteps ?d')"
  proof
    fix x assume x: "x \<in> set (s' # ss)"
    with sub have "x \<in> set (workflowSteps d)" by auto
    moreover from x have "s_id x \<noteq> s_id s" by (rule other)
    ultimately show "x \<in> set (workflowSteps ?d')"
      unfolding steps' by (rule untouched_by_decision)
  qed
  moreover have "\<forall>x \<in> set (s' # ss). workflowId x = wid"
    using wids by simp
  moreover have "\<forall>x \<in> set (workflowSteps ?d').
      workflowId x = wid \<and> Suc (currentStep w) < stepOrder x \<longrightarrow> s_status x = S_PENDING"
  proof (intro ballI impI)
    fix x assume x: "x \<in> set (workflowSteps ?d')"
      and c: "workflowId x = wid \<and> Suc (currentStep w) < stepOrder x"
    from x have "x \<in> set (workflowSteps ?d1)" by (simp only: steps')
    with d s have "x = ?f s \<or> (x \<in> set (workflowSteps d) \<and> s_id x \<noteq> s_id s)"
      by (rule steps_after_decision)
    then show "s_status x = S_PENDING"
    proof
      assume "x = ?f s"
      with c k show ?thesis by simp
    next
      assume "x \<in> set (workflowSteps d) \<and> s_id x \<noteq> s_id s"
      with c pend show ?thesis by auto
    qed
  qed
  ultimately show ?thesis
    using w' rest len unfolding awaiting_def by simp
qed

lemma awaiting_approve_last:
  assumes aw: "awaiting d wid [s]" and h: "healthy e" and rq: "request_for ''APPROVED'' s r"
  shows "\<exists>w'. find_workflow (snd (decideStep e d r)) wid = Some w'
              \<and> w_status w' = W_APPROVED \<and> w_completedAt w' = Some (now e)"
proof -
  from aw obtain w where w: "find_workflow d wid = Some w"
    and ord: "in_order (currentStep w) [s]"
    and len: "currentStep w + length [s] = Suc (totalSteps w)"
    by (auto simp: awaiting_def)
  from ord len have k: "stepOrder s = totalSteps w" by simp
  have d': "snd (decideStep e d r)
            = update_workflow wid (apply_workflow_update (workflowUpdate e ''APPROVED'' s w))
                (update_step (s_id s) (decided e (the (approverId s)) S_APPROVED r) d)"
    using aw h rq _ w by (rule decideStep_head) simp_all
  have u: "workflowUpdate e ''APPROVED'' s w
        = \<lparr> wu_currentStep = None, wu_status = Some W_APPROVED, wu_completedAt = Some (now e) \<rparr>"
    using k by (simp add: workflowUpdate_def)
  show ?thesis
    by (simp add: d' find_workflow_update_workflow w u apply_workflow_update_def assign_def)
qed

lemma awaiting_reject:
  assumes aw: "awaiting d wid (s # ss)" and h: "healthy e" and rq: "request_for ''REJECTED'' s r"
  shows "\<exists>w'. find_workflow (snd (decideStep e d r)) wid = Some w'
              \<and> w_status w' = W_REJECTED \<and> w_completedAt w' = Some (now e)
              \<and> (\<forall>x \<in> set (workflowSteps (snd (decideStep e d r))).
                     workflowId x = wid \<and> currentStep w' < stepOrder x \<longrightarrow> s_status x = S_PENDING)"
proof -
  from aw obtain w where w: "find_workflow d wid = Some w"
    and ord: "in_order (currentStep w) (s # ss)"
    and pend: "\<forall>x \<in> set (workflowSteps d).
                 workflowId x = wid \<and> currentStep w < stepOrder x \<longrightarrow> s_status x = S_PENDING"
    and d: "distinct (map s_id (workflowSteps d))"
    and s: "s \<in> set (workflowSteps d)"
    by (auto simp: awaiting_def)
  from ord have k: "stepOrder s = currentStep w" by simp
  let ?f = "decided e (the (approverId s)) S_REJECTED r"
  let ?d1 = "update_step (s_id s) ?f d"
  let ?d' = "snd (decideStep e d r)"
  let ?w' = "w\<lparr> w_status := W_REJECTED, w_completedAt := Some (now e) \<rparr>"
  have d': "?d' = update_workflow wid (apply_workflow_update (workflowUpdate e ''REJECTED'' s w)) ?d1"
    using aw h rq _ w by (rule decideStep_head) simp_all
  have u: "workflowUpdate e ''REJECTED'' s w
        = \<lparr> wu_currentStep = None, wu_status = Some W_REJECTED, wu_completedAt = Some (now e) \<rparr>"
    by (simp add: workflowUpdate_def)
  have w': "find_workflow ?d' wid = Some ?w'"
    by (simp add: d' find_workflow_update_workflow w u apply_workflow_update_def assign_def)
  have steps': "workflowSteps ?d' = workflowSteps ?d1"
    by (simp add: d')
  have "s_status x = S_PENDING"
    if x: "x \<in> set (workflowSteps ?d')" and c: "workflowId x = wid \<and> currentStep ?w' < stepOrder x" for x
  proof -
    from x have "x \<in> set (workflowSteps ?d1)" by (simp only: steps')
    with d s have "x = ?f s \<or> (x \<in> set (workflowSteps d) \<and> s_id x \<noteq> s_id s)"
      by (rule steps_after_decision)
    then show ?thesis
    proof
      assume "x = ?f s"
      with c k show ?thesis by simp
    next
      assume "x \<in> set (workflowSteps d) \<and> s_id x \<noteq> s_id s"
      with c pend show ?thesis by auto
    qed
  qed
  with w' show ?thesis by auto
qed

lemma find_append_fresh:
  assumes "\<forall>x \<in> set xs. \<not> P x"
  shows "find P (xs @ ys) = find P ys"
  using assms by (induction xs) simp_all

lemma new_rows_ids:
  "map s_id (map (\<lambda>(index, step). new_step wid base index step) (enumerate n steps))
   = map (\<lambda>i. base + i) [n ..< n + length steps]"
proof (induction steps arbitrary: n)
  case Nil
  then show ?case by simp
next
  case (Cons x xs)
  have eq: "n + length (x # xs) = Suc n + length xs" by simp
  have "[n ..< n + length (x # xs)] = n # [Suc n ..< Suc n + length xs]"
    unfolding eq by (rule upt_conv_Cons) simp
  then show ?case
    by (simp only: enumerate_simps list.map split Cons[of "Suc n"]) (simp add: new_step_def)
qed

lemma new_rows_in_order:
  "in_order (Suc n) (map (\<lambda>(index, step). new_step wid base index step) (enumerate n steps))"
  by (induction steps arbitrary: n) (simp_all add: new_step_def)

lemma new_rows_fresh:
  assumes "s \<in> set (new_steps wid base steps)"
  shows "workflowId s = wid \<and> s_status s = S_PENDING \<and> base \<le> s_id s"
  using assms by (auto simp: new_steps_def new_step_def)

lemma new_rows_distinct: "distinct (map s_id (new_steps wid base steps))"
  unfolding new_steps_def new_rows_ids by (simp add: distinct_map)

lemma length_new_steps [simp]: "length (new_steps wid base steps) = length steps"
  by (simp add: new_steps_def)

lemma created_awaiting:
  assumes ok: "store_ok d" and c: "createWorkflow e d cr = (Accept 201 (w, rows), d1)"
  shows "awaiting d1 (w_id w) rows \<and> rows \<noteq> [] \<and> length rows = totalSteps w"
proof -
  from c obtain steps where steps: "cw_steps cr = Some steps" "steps \<noteq> []"
    and rows: "rows = new_steps (nextId d) (nextId d + 1) steps"
    and w: "w_id w = nextId d" "currentStep w = 1" "totalSteps w = length steps"
    and d1: "approvalWorkflows d1 = approvalWorkflows d @ [w]"
            "workflowSteps d1 = workflowSteps d @ rows"
    by (auto simp: createWorkflow_def Let_def split: option.splits if_splits)
  from ok have old: "distinct (map s_id (workflowSteps d))"
    and olds: "\<forall>s \<in> set (workflowSteps d). s_id s < nextId d \<and> workflowId s < nextId d"
    and oldw: "\<forall>x \<in> set (approvalWorkflows d). w_id x < nextId d"
    by (simp_all add: store_ok_def)
  have "distinct (map s_id (workflowSteps d1))"
    using old olds new_rows_distinct[of "nextId d" "nextId d + 1" steps]
    by (fastforce simp: d1 rows dest: new_rows_fresh)
  moreover have "set rows \<subseteq> set (workflowSteps d1)"
    by (simp add: d1)
  moreover have "\<forall>s \<in> set rows. workflowId s = w_id w"
    by (simp add: rows w new_rows_fresh)
  moreover have "find_workflow d1 (w_id w) = Some w"
  proof -
    from oldw have "\<forall>x \<in> set (approvalWorkflows d). \<not> w_id x = w_id w"
      by (auto simp: w)
    then show ?thesis
      by (simp add: find_workflow_def d1 find_append_fresh)
  qed
  moreover have "in_order (currentStep w) rows"
    using new_rows_in_order[of 0 "nextId d" "nextId d + 1" steps]
    by (simp add: w rows new_steps_def)
  moreover have "currentStep w + length rows = Suc (totalSteps w)"
    by (simp add: w rows)
  moreover have "\<forall>s \<in> set (workflowSteps d1).
      workflowId s = w_id w \<and> currentStep w < stepOrder s \<longrightarrow> s_status s = S_PENDING"
    using olds by (auto simp: d1 rows w dest: new_rows_fresh)
  ultimately have "awaiting d1 (w_id w) rows"
    unfolding awaiting_def by blast
  moreover from steps have "length rows \<noteq> 0"
    by (simp add: rows)
  then have "rows \<noteq> []"
    by (simp only: length_0_conv not_False_eq_True)
  ultimately show ?thesis
    by (simp add: rows w)
qed

lemma decideAll_append: "decideAll d (xs @ ys) = decideAll (decideAll d xs) ys"
  by (induction xs arbitrary: d) auto

lemma awaiting_after_approvals:
  assumes "awaiting d wid (ss @ s # rest)"
    and "list_all2 (decision_by_approver ''APPROVED'') ss calls"
  shows "awaiting (decideAll d calls) wid (s # rest)"
  using assms
proof (induction ss arbitrary: d calls)
  case Nil
  then show ?case by simp
next
  case (Cons x xs)
  from Cons.prems(2) obtain c calls' where c: "calls = c # calls'"
    and first: "decision_by_approver ''APPROVED'' x c"
    and rest: "list_all2 (decision_by_approver ''APPROVED'') xs calls'"
    by (auto simp: list_all2_Cons1)
  obtain e r where er: "c = (e, r)" by (cases c)
  with c have calls: "calls = (e, r) # calls'" by simp
  from first er have h: "healthy e" and rq: "request_for ''APPROVED'' x r"
    by (simp_all add: decision_by_approver_def)
  obtain y ys where tail: "xs @ s # rest = y # ys"
    by (cases xs) auto
  from Cons.prems(1) have "awaiting d wid (x # y # ys)"
    by (simp add: tail)
  then have "awaiting (snd (decideStep e d r)) wid (y # ys)"
    using h rq by (rule awaiting_approve)
  then have "awaiting (snd (decideStep e d r)) wid (xs @ s # rest)"
    by (simp only: tail)
  then have "awaiting (decideAll (snd (decideStep e d r)) calls') wid (s # rest)"
    using rest by (rule Cons.IH)
  then show ?case by (simp add: calls)
qed

subsection \<open>Approving every step, rejecting one\<close>

text \<open>
  Claim C1. A workflow is created with \<open>totalSteps = N\<close> steps, and the approver of each
  step decides it. After the \<open>N\<close> decisions APPROVED, in step order, the workflow is
  APPROVED and its \<open>completedAt\<close> is set. After the first \<open>k < N\<close> of them and one
  decision REJECTED on the step then active, optional or not, the workflow is REJECTED with
  \<open>completedAt\<close> the time of that decision, and every step of the workflow whose
  \<open>stepOrder\<close> is greater than \<open>currentStep\<close> is still PENDING.
\<close>

theorem approvals_then_approved_rejection_then_rejected:
  assumes ok: "store_ok d" and c: "createWorkflow e0 d cr = (Accept 201 (w, rows), d1)"
    and calls: "list_all2 (decision_by_approver ''APPROVED'') rows calls"
  shows "length calls = totalSteps w
    \<and> (\<exists>w'. find_workflow (decideAll d1 calls) (w_id w) = Some w'
            \<and> w_status w' = W_APPROVED \<and> w_completedAt w' \<noteq> None)
    \<and> (\<forall>k e r. k < totalSteps w \<and> healthy e \<and> request_for ''REJECTED'' (rows ! k) r \<longrightarrow>
          (\<exists>w'. find_workflow (snd (decideStep e (decideAll d1 (take k calls)) r)) (w_id w) = Some w'
             \<and> w_status w' = W_REJECTED \<and> w_completedAt w' = Some (now e)
             \<and> (\<forall>x \<in> set (workflowSteps (snd (decideStep e (decideAll d1 (take k calls)) r))).
                   workflowId x = w_id w \<and> currentStep w' < stepOrder x \<longrightarrow> s_status x = S_PENDING)))"
proof (intro conjI allI impI)
  from ok c have aw: "awaiting d1 (w_id w) rows" and ne: "rows \<noteq> []"
    and len: "length rows = totalSteps w"
    by (simp_all add: created_awaiting)
  from calls len show "length calls = totalSteps w"
    by (simp add: list_all2_lengthD[symmetric])
  show "\<exists>w'. find_workflow (decideAll d1 calls) (w_id w) = Some w'
            \<and> w_status w' = W_APPROVED \<and> w_completedAt w' \<noteq> None"
  proof -
    from ne obtain ss s where rows: "rows = ss @ [s]"
      by (metis append_butlast_last_id)
    with calls obtain cs c where cs: "calls = cs @ [c]"
      and pre: "list_all2 (decision_by_approver ''APPROVED'') ss cs"
      and last: "decision_by_approver ''APPROVED'' s c"
      by (auto simp: list_all2_append1 list_all2_Cons1)
    from aw have "awaiting d1 (w_id w) (ss @ s # [])" by (simp add: rows)
    then have "awaiting (decideAll d1 cs) (w_id w) [s]"
      using pre by (rule awaiting_after_approvals)
    moreover from last have "healthy (fst c)" and "request_for ''APPROVED'' s (snd c)"
      by (simp_all add: decision_by_approver_def)
    ultimately have "\<exists>w'. find_workflow (snd (decideStep (fst c) (decideAll d1 cs) (snd c))) (w_id w) = Some w'
        \<and> w_status w' = W_APPROVED \<and> w_completedAt w' = Some (now (fst c))"
      by (rule awaiting_approve_last)
    then show ?thesis
      by (cases c) (auto simp: cs decideAll_append)
  qed
next
  fix k e r
  assume a: "k < totalSteps w \<and> healthy e \<and> request_for ''REJECTED'' (rows ! k) r"
  from ok c have aw: "awaiting d1 (w_id w) rows" and len: "length rows = totalSteps w"
    by (simp_all add: created_awaiting)
  from a len have k: "k < length rows" by simp
  then have split: "rows = take k rows @ rows ! k # drop (Suc k) rows"
    by (rule id_take_nth_drop)
  from calls have "list_all2 (decision_by_approver ''APPROVED'') (take k rows) (take k calls)"
    by (rule list_all2_takeI)
  moreover from aw split have "awaiting d1 (w_id w) (take k rows @ rows ! k # drop (Suc k) rows)"
    by simp
  ultimately have "awaiting (decideAll d1 (take k calls)) (w_id w) (rows ! k # drop (Suc k) rows)"
    by (rule awaiting_after_approvals[rotated])
  moreover from a have "healthy e" by (rule conjunct1[OF conjunct2])
  moreover from a have "request_for ''REJECTED'' (rows ! k) r" by (rule conjunct2[OF conjunct2])
  ultimately show "\<exists>w'. find_workflow (snd (decideStep e (decideAll d1 (take k calls)) r)) (w_id w) = Some w'
             \<and> w_status w' = W_REJECTED \<and> w_completedAt w' = Some (now e)
             \<and> (\<forall>x \<in> set (workflowSteps (snd (decideStep e (decideAll d1 (take k calls)) r))).
                   workflowId x = w_id w \<and> currentStep w' < stepOrder x \<longrightarrow> s_status x = S_PENDING)"
    by (rule awaiting_reject)
qed

text \<open>
  Claim C1, at a sample: the refund with two steps, the second of them optional, approved
  by agents 2 and 3, or approved by agent 2 and then rejected by agent 3.
\<close>

theorem approvals_then_approved_rejection_then_rejected_witness:
  "length approvals = 2
   \<and> map_option w_status (find_workflow (decideAll two_steps approvals) 10) = Some W_APPROVED
   \<and> map_option w_status
        (find_workflow (snd (decideStep (quiet 102) (decideAll two_steps (take 1 approvals))
                              (verdict 3 10 12 ''REJECTED''))) 10) = Some W_REJECTED"
proof -
  have ok: "store_ok office"
    by (simp add: store_ok_def office_def)
  have created: "createWorkflow (quiet 100) office (refund_request [step_by 2 False, step_by 3 True])
      = (Accept 201 (refund_workflow, [refund_step 1 2 False, refund_step 2 3 True]), two_steps)"
    by code_simp
  have calls: "list_all2 (decision_by_approver ''APPROVED'')
      [refund_step 1 2 False, refund_step 2 3 True] approvals"
    by (simp add: decision_by_approver_def approvals_def healthy_def quiet_def request_for_def
        verdict_def refund_step_def)
  have reject: "1 < totalSteps refund_workflow \<and> healthy (quiet 102)
      \<and> request_for ''REJECTED'' ([refund_step 1 2 False, refund_step 2 3 True] ! 1)
            (verdict 3 10 12 ''REJECTED'')"
    by (simp add: healthy_def quiet_def request_for_def verdict_def refund_step_def refund_workflow_def)
  note run = approvals_then_approved_rejection_then_rejected[OF ok created calls]
  from run have "length approvals = totalSteps refund_workflow"
    by (rule conjunct1)
  moreover from run have "\<exists>w'. find_workflow (decideAll two_steps approvals) (w_id refund_workflow) = Some w'
      \<and> w_status w' = W_APPROVED \<and> w_completedAt w' \<noteq> None"
    by (rule conjunct1[OF conjunct2])
  moreover from run reject
  have "\<exists>w'. find_workflow (snd (decideStep (quiet 102) (decideAll two_steps (take 1 approvals))
                                   (verdict 3 10 12 ''REJECTED''))) (w_id refund_workflow) = Some w'
      \<and> w_status w' = W_REJECTED"
    by blast
  ultimately show ?thesis
    by (auto simp: refund_workflow_def)
qed

subsection \<open>Deciding a step that is not the active one\<close>

text \<open>
  Claim C5. When the caller is the approver of a step of the workflow and the step's
  \<open>stepOrder\<close> is not the workflow's \<open>currentStep\<close>, the decision is refused with status
  400, "This step is not currently active", and the store is left as it was: neither the
  step nor the workflow changes.
\<close>

theorem inactive_step_is_refused:
  assumes "ds_agent r = Some a" and "\<not> falsy (ds_status r)" and "\<not> throws e StepFindFirst"
    and "find (\<lambda>s. s_id s = ds_stepId r \<and> workflowId s = ds_workflowId r \<and> approverId s = Some a)
           (workflowSteps d) = Some step"
    and "find_workflow d (ds_workflowId r) = Some w"
    and "stepOrder step \<noteq> currentStep w"
  shows "decideStep e d r = (Reject 400 ''This step is not currently active'', d)"
proof -
  from assms(4) have "workflowId step = ds_workflowId r"
    by (auto simp: find_Some_iff)
  with assms show ?thesis
    by (simp add: decideStep_def)
qed

text \<open>
  Claim C5, at a sample: agent 3 decides the second step of the refund while the first is
  the active one.
\<close>

theorem inactive_step_is_refused_witness:
  "decideStep (quiet 101) two_steps (verdict 3 10 12 ''APPROVED'')
   = (Reject 400 ''This step is not currently active'', two_steps)"
  by (rule inactive_step_is_refused[where a = 3 and step = "refund_step 2 3 True" and w = refund_workflow];
      code_simp)

text \<open>
  Whoever the caller is and whatever the gateway does: when no row with the key and the
  workflow of the request is the active step of its workflow, the decision writes nothing.
\<close>

lemma inactive_step_never_written:
  assumes "\<forall>s \<in> set (workflowSteps d). \<forall>w.
             s_id s = ds_stepId r \<and> workflowId s = ds_workflowId r
             \<and> find_workflow d (workflowId s) = Some w \<longrightarrow> currentStep w \<noteq> stepOrder s"
  shows "snd (decideStep e d r) = d"
proof (cases "ds_agent r")
  case None
  then show ?thesis by (simp add: decideStep_def)
next
  case (Some a)
  show ?thesis
  proof (cases "find (\<lambda>s. s_id s = ds_stepId r \<and> workflowId s = ds_workflowId r
                          \<and> approverId s = Some a) (workflowSteps d)")
    case None
    with Some show ?thesis by (simp add: decideStep_def)
  next
    case (Some step)
    then have "step \<in> set (workflowSteps d)" and "s_id step = ds_stepId r"
      and "workflowId step = ds_workflowId r"
      by (auto simp: find_Some_iff)
    with assms have "\<forall>w. find_workflow d (workflowId step) = Some w \<longrightarrow> currentStep w \<noteq> stepOrder step"
      by blast
    with Some \<open>ds_agent r = Some a\<close> show ?thesis
      by (cases "find_workflow d (workflowId step)") (simp_all add: decideStep_def)
  qed
qed

subsection \<open>Approving a step that is not the last\<close>

text \<open>
  Claim C9, as amended. An APPROVED decision on the active step, when its \<open>stepOrder\<close> is
  less than \<open>totalSteps\<close>, increases \<open>currentStep\<close> by one and writes nothing else of the
  workflow: its status stays what it was, so a PENDING workflow stays PENDING.
\<close>

theorem approve_inner_step:
  assumes "ds_agent r = Some a" and "ds_status r = Some ''APPROVED''" and "\<forall>c. \<not> throws e c"
    and "find (\<lambda>s. s_id s = ds_stepId r \<and> workflowId s = ds_workflowId r \<and> approverId s = Some a)
           (workflowSteps d) = Some step"
    and "find_workflow d (ds_workflowId r) = Some w"
    and "stepOrder step = currentStep w" and "stepOrder step < totalSteps w"
  shows "find_workflow (snd (decideStep e d r)) (ds_workflowId r)
         = Some (w\<lparr> currentStep := currentStep w + 1 \<rparr>)"
proof -
  from assms(4) have wid: "workflowId step = ds_workflowId r"
    by (auto simp: find_Some_iff)
  have u: "workflowUpdate e ''APPROVED'' step w
        = \<lparr> wu_currentStep = Some (stepOrder step + 1), wu_status = None, wu_completedAt = None \<rparr>"
    using assms(7) by (simp add: workflowUpdate_def)
  show ?thesis
    using assms wid
    by (simp add: decideStep_def falsy_def u has_keys_def Let_def find_workflow_update_workflow
        apply_workflow_update_def assign_def)
qed

text \<open>Claim C9 as amended, at a sample: agent 2 approves the first step of the refund.\<close>

theorem approve_inner_step_witness:
  "find_workflow (snd (decideStep (quiet 101) two_steps (verdict 2 10 11 ''APPROVED''))) 10
   = Some (refund_workflow\<lparr> currentStep := 2 \<rparr>)"
proof -
  have quiet: "\<forall>c. \<not> throws (quiet 101) c"
    by (simp add: quiet_def)
  have "find_workflow (snd (decideStep (quiet 101) two_steps (verdict 2 10 11 ''APPROVED'')))
          (ds_workflowId (verdict 2 10 11 ''APPROVED''))
        = Some (refund_workflow\<lparr> currentStep := currentStep refund_workflow + 1 \<rparr>)"
    by (rule approve_inner_step[where a = 2 and step = "refund_step 1 2 False", OF _ _ quiet]; code_simp)
  then show ?thesis
    by (simp add: verdict_def refund_workflow_def)
qed

text \<open>
  Claim C9 as it was stated fails there: the first approval leaves the status of the
  workflow PENDING, where the claim has it IN_PROGRESS.
\<close>

theorem first_approval_leaves_pending:
  "map w_status (approvalWorkflows two_steps) = [W_PENDING]
   \<and> map currentStep (approvalWorkflows (snd (decideStep (quiet 101) two_steps (verdict 2 10 11 ''APPROVED''))))
       = [2]
   \<and> map w_status (approvalWorkflows (snd (decideStep (quiet 101) two_steps (verdict 2 10 11 ''APPROVED''))))
       = [W_PENDING]"
  by code_simp

subsection \<open>The two writes of a decision\<close>

text \<open>
  Claim C8, as amended. A decision APPROVED or REJECTED on the active step, by its approver,
  writes the step first and the workflow second, as two separate calls of the gateway.
  When the step write throws, the store is left as it was. When the step write goes through
  and the workflow write throws, the reply is status 500 and the store keeps the decided
  step next to the unchanged workflow. When neither throws, both are written.
\<close>

theorem step_write_then_workflow_write:
  assumes "ds_agent r = Some a" and "ds_status r = Some v" and "v = ''APPROVED'' \<or> v = ''REJECTED''"
    and "\<not> throws e StepFindFirst"
    and "find (\<lambda>s. s_id s = ds_stepId r \<and> workflowId s = ds_workflowId r \<and> approverId s = Some a)
           (workflowSteps d) = Some step"
    and "find_workflow d (ds_workflowId r) = Some w"
    and "stepOrder step = currentStep w"
  shows "(throws e StepUpdate \<longrightarrow> decideStep e d r = (internal_error, d))
       \<and> (\<not> throws e StepUpdate \<and> throws e WorkflowUpdate \<longrightarrow>
            decideStep e d r
            = (internal_error, update_step (ds_stepId r) (decided e a (the (StepStatus v)) r) d))
       \<and> (\<not> throws e StepUpdate \<and> \<not> throws e WorkflowUpdate \<longrightarrow>
            snd (decideStep e d r)
            = update_workflow (ds_workflowId r) (apply_workflow_update (workflowUpdate e v step w))
                (update_step (ds_stepId r) (decided e a (the (StepStatus v)) r) d))"
proof -
  from assms(5) have wid: "workflowId step = ds_workflowId r"
    by (auto simp: find_Some_iff)
  from assms(3) have nf: "\<not> falsy (Some v)"
    by (auto simp: falsy_def)
  from assms(3) obtain st where st: "StepStatus v = Some st"
    by auto
  from assms(3) have keys: "has_keys (workflowUpdate e v step w)"
    by (auto simp: has_keys_def workflowUpdate_def)
  show ?thesis
    using assms(1,2,4-7) wid nf st keys
    by (simp add: decideStep_def Let_def)
qed

text \<open>
  Claim C8 as amended, at a sample: the workflow write throws while agent 2 approves the
  first step of the refund.
\<close>

theorem step_write_then_workflow_write_witness:
  "decideStep (outage WorkflowUpdate 101) two_steps (verdict 2 10 11 ''APPROVED'')
   = (internal_error,
      update_step 11 (decided (outage WorkflowUpdate 101) 2 S_APPROVED (verdict 2 10 11 ''APPROVED''))
        two_steps)"
proof -
  have throws: "\<not> throws (outage WorkflowUpdate 101) StepUpdate \<and> throws (outage WorkflowUpdate 101) WorkflowUpdate"
    by (simp add: outage_def)
  have "ds_agent (verdict 2 10 11 ''APPROVED'') = Some 2"
    and "ds_status (verdict 2 10 11 ''APPROVED'') = Some ''APPROVED''"
    and "''APPROVED'' = ''APPROVED'' \<or> ''APPROVED'' = ''REJECTED''"
    and "\<not> throws (outage WorkflowUpdate 101) StepFindFirst"
    and "find (\<lambda>s. s_id s = ds_stepId (verdict 2 10 11 ''APPROVED'')
                  \<and> workflowId s = ds_workflowId (verdict 2 10 11 ''APPROVED'') \<and> approverId s = Some 2)
           (workflowSteps two_steps) = Some (refund_step 1 2 False)"
    and "find_workflow two_steps (ds_workflowId (verdict 2 10 11 ''APPROVED'')) = Some refund_workflow"
    and "stepOrder (refund_step 1 2 False) = currentStep refund_workflow"
    by code_simp+
  from step_write_then_workflow_write[OF this] throws show ?thesis
    by (simp add: verdict_def)
qed

text \<open>
  Claim C8 as it was stated fails there: the decision ends with status 500, and the store
  is not the one before it; the first step is APPROVED while \<open>currentStep\<close> is still 1.
\<close>

theorem failed_workflow_write_keeps_step_write:
  "fst (decideStep (outage WorkflowUpdate 101) two_steps (verdict 2 10 11 ''APPROVED'')) = internal_error
   \<and> map s_status (workflowSteps (snd (decideStep (outage WorkflowUpdate 101) two_steps (verdict 2 10 11 ''APPROVED''))))
       = [S_APPROVED, S_PENDING]
   \<and> map currentStep (approvalWorkflows (snd (decideStep (outage WorkflowUpdate 101) two_steps (verdict 2 10 11 ''APPROVED''))))
       = [1]
   \<and> snd (decideStep (outage WorkflowUpdate 101) two_steps (verdict 2 10 11 ''APPROVED'')) \<noteq> two_steps"
  by code_simp

subsection \<open>Decisions on a workflow that has ended\<close>

text \<open>
  Claim C4, evaluated where it fails. The requester cancels a workflow of one step; the
  approver of that step then approves it. The decision is accepted, and the status of the
  workflow goes from CANCELLED to APPROVED.
\<close>

theorem cancelled_workflow_gets_approved:
  "map w_status (approvalWorkflows (snd (cancelWorkflow (quiet 101) one_step (cancel_by 1 10)))) = [W_CANCELLED]
   \<and> map w_status (approvalWorkflows
        (snd (decideStep (quiet 102) (snd (cancelWorkflow (quiet 101) one_step (cancel_by 1 10)))
               (verdict 2 10 11 ''APPROVED'')))) = [W_APPROVED]"
  by code_simp

text \<open>
  Claim C3, evaluated where it fails. Agent 2 rejects the first step of the refund, which
  ends the workflow as REJECTED; \<open>currentStep\<close> still points at that step, and a second
  decision of agent 2 on it is accepted and rewrites the step from REJECTED to APPROVED.
\<close>

theorem rejected_step_is_decided_again:
  "map w_status (approvalWorkflows (snd (decideStep (quiet 101) two_steps (verdict 2 10 11 ''REJECTED'')))) = [W_REJECTED]
   \<and> map s_status (workflowSteps (snd (decideStep (quiet 101) two_steps (verdict 2 10 11 ''REJECTED''))))
       = [S_REJECTED, S_PENDING]
   \<and> map s_status (workflowSteps
        (snd (decideStep (quiet 102) (snd (decideStep (quiet 101) two_steps (verdict 2 10 11 ''REJECTED'')))
               (verdict 2 10 11 ''APPROVED'')))) = [S_APPROVED, S_PENDING]"
  by code_simp

section \<open>Properties of the batch processor\<close>

lemma bulkBookings_update_item [simp]: "bulkBookings (update_item iid f d) = bulkBookings d"
  by (simp add: update_item_def)

lemma bulkBookingItems_update_batch [simp]: "bulkBookingItems (update_batch bid f d) = bulkBookingItems d"
  by (simp add: update_batch_def)

lemma nextId_update_item [simp]: "nextId (update_item iid f d) = nextId d"
  by (simp add: update_item_def)

lemma nextId_update_batch [simp]: "nextId (update_batch bid f d) = nextId d"
  by (simp add: update_batch_def)

lemma items_of_update_batch [simp]: "items_of (update_batch bid f d) b = items_of d b"
  by (simp add: items_of_def)

lemma find_batch_update_batch:
  assumes "\<And>b. b_id (f b) = b_id b"
  shows "find_batch (update_batch bid f d) bid = map_option f (find_batch d bid)"
proof -
  have "find (\<lambda>b. b_id b = bid) (map (\<lambda>b. if b_id b = bid then f b else b) bs)
        = map_option f (find (\<lambda>b. b_id b = bid) bs)" for bs
    by (induction bs) (simp_all add: assms)
  then show ?thesis by (simp add: find_batch_def update_batch_def)
qed

lemma processItems_settles:
  assumes "\<forall>i. attempt e i \<noteq> HandlerThrew"
  shows "\<exists>d'. processItems e items d = Inr d' \<and> bulkBookings d' = bulkBookings d
              \<and> nextId d' = nextId d
              \<and> list_all2 (resolved items) (bulkBookingItems d) (bulkBookingItems d')"
proof (induction items arbitrary: d)
  case Nil
  show ?case by (simp add: resolved_def list_all2_same)
next
  case (Cons item items)
  have step: "\<exists>d'. processItems e items (update_item (i_id item) f d) = Inr d'
                \<and> bulkBookings d' = bulkBookings d \<and> nextId d' = nextId d
                \<and> list_all2 (resolved (item # items)) (bulkBookingItems d) (bulkBookingItems d')"
    if f: "\<And>x. i_id (f x) = i_id x \<and> bulkBookingId (f x) = bulkBookingId x \<and> i_status (f x) \<noteq> I_PENDING"
    for f
  proof -
    let ?d1 = "update_item (i_id item) f d"
    from Cons[of ?d1] obtain d' where d': "processItems e items ?d1 = Inr d'"
      and b: "bulkBookings d' = bulkBookings ?d1" and n: "nextId d' = nextId ?d1"
      and r: "list_all2 (resolved items) (bulkBookingItems ?d1) (bulkBookingItems d')"
      by blast
    have "list_all2 (\<lambda>x x1. x1 = (if i_id x = i_id item then f x else x))
            (bulkBookingItems d) (bulkBookingItems ?d1)"
      by (simp add: update_item_def list_all2_map2 list_all2_same)
    from list_all2_trans[OF _ this r, of "resolved (item # items)"]
    have "list_all2 (resolved (item # items)) (bulkBookingItems d) (bulkBookingItems d')"
      using f by (auto simp: resolved_def split: if_splits)
    with d' b n show ?thesis by simp
  qed
  from assms have "attempt e item \<noteq> HandlerThrew" by simp
  then show ?case
    by (cases "attempt e item") (simp_all add: step succeeded_def failed_def)
qed


lemma process_outcome:
  assumes s: "settles e" and b: "find_batch d bid = Some b"
  shows "\<exists>d2. processItems e (pending_items d bid)
                (update_batch bid (\<lambda>b. b\<lparr> b_status := B_PROCESSING \<rparr>) d) = Inr d2
           \<and> nextId d2 = nextId d
           \<and> list_all2 (resolved (pending_items d bid)) (bulkBookingItems d) (bulkBookingItems d2)
           \<and> bulkBookings d2 = bulkBookings (update_batch bid (\<lambda>b. b\<lparr> b_status := B_PROCESSING \<rparr>) d)
           \<and> processaBulkBooking e d bid = update_batch bid (final_update e (items_of d2 bid)) d2"
proof -
  let ?d1 = "update_batch bid (\<lambda>b. b\<lparr> b_status := B_PROCESSING \<rparr>) d"
  from s have a: "\<forall>i. attempt e i \<noteq> HandlerThrew" and t: "\<And>c. \<not> throws e c"
    by (simp_all add: settles_def healthy_def)
  from processItems_settles[OF a, of "pending_items d bid" ?d1]
  obtain d2 where d2: "processItems e (pending_items d bid) ?d1 = Inr d2"
    and bs: "bulkBookings d2 = bulkBookings ?d1" and n: "nextId d2 = nextId ?d1"
    and r: "list_all2 (resolved (pending_items d bid)) (bulkBookingItems ?d1) (bulkBookingItems d2)"
    by blast
  have "processaBulkBooking e d bid = update_batch bid (final_update e (items_of d2 bid)) d2"
    by (simp add: processaBulkBooking_def process_body_def t b d2 Let_def final_update_def)
  with d2 bs n r show ?thesis by simp
qed



lemma resolved_none_pending:
  assumes r: "list_all2 (resolved (pending_items d bid)) (bulkBookingItems d) ys"
    and y: "y \<in> set ys" and yb: "bulkBookingId y = bid"
  shows "i_status y \<noteq> I_PENDING"
proof -
  from y obtain n where n: "n < length ys" "y = ys ! n"
    by (auto simp: in_set_conv_nth)
  define x where "x = bulkBookingItems d ! n"
  from r n have x: "x \<in> set (bulkBookingItems d)" and xy: "resolved (pending_items d bid) x y"
    by (simp_all add: x_def list_all2_conv_all_nth)
  show ?thesis
  proof (cases "i_id x \<in> i_id ` set (pending_items d bid)")
    case True
    with xy show ?thesis by (simp add: resolved_def)
  next
    case False
    with xy have "y = x" by (simp add: resolved_def)
    with False x yb show ?thesis
      by (auto simp: pending_items_def items_of_def)
  qed
qed


lemma all_failed_iff:
  "(length (filter (\<lambda>i. i_status i = I_FAILED) xs) = length xs) = (\<forall>i \<in> set xs. i_status i = I_FAILED)"
proof (induction xs)
  case Nil
  show ?case by simp
next
  case (Cons x xs)
  have "length (filter (\<lambda>i. i_status i = I_FAILED) xs) \<le> length xs"
    by (rule length_filter_le)
  then have "length (filter (\<lambda>i. i_status i = I_FAILED) xs) \<noteq> Suc (length xs)"
    by linarith
  with Cons show ?case by simp
qed

subsection \<open>The counters and the status after a run\<close>

text \<open>
  Claim C2. When the batch processor runs to the end on an existing batch, no item of the
  batch is PENDING any more, \<open>successfulItems\<close> and \<open>failedItems\<close> are the numbers of
  SUCCESS and of FAILED items among all items of the batch, and the status is FAILED if
  every item of the batch is FAILED and COMPLETED otherwise.
\<close>

theorem processBatch_recounts:
  assumes s: "settles e" and b: "find_batch d bid = Some b"
  shows "\<exists>b'. find_batch (processaBulkBooking e d bid) bid = Some b'
      \<and> (\<forall>i \<in> set (items_of (processaBulkBooking e d bid) bid). i_status i \<noteq> I_PENDING)
      \<and> successfulItems b'
          = length (filter (\<lambda>i. i_status i = I_SUCCESS) (items_of (processaBulkBooking e d bid) bid))
      \<and> failedItems b'
          = length (filter (\<lambda>i. i_status i = I_FAILED) (items_of (processaBulkBooking e d bid) bid))
      \<and> b_status b' = (if \<forall>i \<in> set (items_of (processaBulkBooking e d bid) bid). i_status i = I_FAILED
                       then B_FAILED else B_COMPLETED)"
proof -
  let ?d' = "processaBulkBooking e d bid"
  from process_outcome[OF s b] obtain d2
    where r: "list_all2 (resolved (pending_items d bid)) (bulkBookingItems d) (bulkBookingItems d2)"
      and bs: "bulkBookings d2 = bulkBookings (update_batch bid (\<lambda>b. b\<lparr> b_status := B_PROCESSING \<rparr>) d)"
      and d': "?d' = update_batch bid (final_update e (items_of d2 bid)) d2"
    by blast
  have items: "items_of ?d' bid = items_of d2 bid"
    by (simp add: d')
  have "find_batch d2 bid = Some (b\<lparr> b_status := B_PROCESSING \<rparr>)"
    using find_batch_update_batch[of "\<lambda>b. b\<lparr> b_status := B_PROCESSING \<rparr>" bid d] b
    by (simp add: find_batch_def bs)
  then have found: "find_batch ?d' bid
      = Some (final_update e (items_of d2 bid) (b\<lparr> b_status := B_PROCESSING \<rparr>))"
    by (simp add: d' find_batch_update_batch final_update_def)
  have "\<forall>i \<in> set (items_of d2 bid). i_status i \<noteq> I_PENDING"
    using resolved_none_pending[OF r] by (simp add: items_of_def)
  with found show ?thesis
    by (simp add: items final_update_def all_failed_iff)
qed

text \<open>
  Claim C2, at a sample: two visits, none attempted yet; the first is booked and the second
  fails the draw.
\<close>

theorem processBatch_recounts_witness:
  "settles (mixed 200) \<and> find_batch unprocessed 10 \<noteq> None
   \<and> (\<exists>b'. find_batch (processaBulkBooking (mixed 200) unprocessed 10) 10 = Some b'
      \<and> (\<forall>i \<in> set (items_of (processaBulkBooking (mixed 200) unprocessed 10) 10). i_status i \<noteq> I_PENDING)
      \<and> successfulItems b'
          = length (filter (\<lambda>i. i_status i = I_SUCCESS) (items_of (processaBulkBooking (mixed 200) unprocessed 10) 10))
      \<and> failedItems b'
          = length (filter (\<lambda>i. i_status i = I_FAILED) (items_of (processaBulkBooking (mixed 200) unprocessed 10) 10))
      \<and> b_status b' = (if \<forall>i \<in> set (items_of (processaBulkBooking (mixed 200) unprocessed 10) 10). i_status i = I_FAILED
                       then B_FAILED else B_COMPLETED))"
proof -
  have s: "settles (mixed 200)"
    by (simp add: settles_def healthy_def mixed_def)
  have b: "find_batch unprocessed 10 = Some (the (find_batch unprocessed 10))"
    by code_simp
  have "find_batch unprocessed 10 \<noteq> None"
    by code_simp
  with processBatch_recounts[OF s b] s show ?thesis
    by blast
qed

subsection \<open>Running the processor on a batch with nothing pending\<close>

text \<open>
  Claim C7, as amended. When no gateway call throws and the batch has no PENDING item, the
  processor leaves every item as it was and rewrites the batch: the status becomes FAILED
  if every item is FAILED and COMPLETED otherwise, the two counters become the numbers of
  SUCCESS and of FAILED items, and \<open>completedAt\<close> becomes the current time. So a batch
  whose status and counters already are these keeps them, and only its \<open>completedAt\<close>
  is overwritten.
\<close>

theorem rerun_rewrites_batch:
  assumes h: "healthy e" and b: "find_batch d bid = Some b" and p: "pending_items d bid = []"
  shows "bulkBookingItems (processaBulkBooking e d bid) = bulkBookingItems d
    \<and> find_batch (processaBulkBooking e d bid) bid = Some (final_update e (items_of d bid) b)
    \<and> (b_status b = (if \<forall>i \<in> set (items_of d bid). i_status i = I_FAILED then B_FAILED else B_COMPLETED)
         \<and> successfulItems b = length (filter (\<lambda>i. i_status i = I_SUCCESS) (items_of d bid))
         \<and> failedItems b = length (filter (\<lambda>i. i_status i = I_FAILED) (items_of d bid))
         \<longrightarrow> find_batch (processaBulkBooking e d bid) bid = Some (b\<lparr> b_completedAt := Some (now e) \<rparr>))"
proof -
  let ?P = "\<lambda>b. b\<lparr> b_status := B_PROCESSING \<rparr>"
  from h have t: "\<And>c. \<not> throws e c"
    by (simp add: healthy_def)
  have d': "processaBulkBooking e d bid
            = update_batch bid (final_update e (items_of d bid)) (update_batch bid ?P d)"
    by (simp add: processaBulkBooking_def process_body_def t b p Let_def final_update_def)
  have found: "find_batch (processaBulkBooking e d bid) bid = Some (final_update e (items_of d bid) b)"
    by (simp add: d' find_batch_update_batch b final_update_def)
  have same: "final_update e (items_of d bid) b = b\<lparr> b_completedAt := Some (now e) \<rparr>"
    if "b_status b = (if \<forall>i \<in> set (items_of d bid). i_status i = I_FAILED then B_FAILED else B_COMPLETED)"
      and "successfulItems b = length (filter (\<lambda>i. i_status i = I_SUCCESS) (items_of d bid))"
      and "failedItems b = length (filter (\<lambda>i. i_status i = I_FAILED) (items_of d bid))"
    using that by (simp add: final_update_def all_failed_iff)
  from found same show ?thesis
    by (simp add: d')
qed

text \<open>Claim C7 as amended, at a sample: the processor runs again on the batch that ran through.\<close>

theorem rerun_rewrites_batch_witness:
  "bulkBookingItems (processaBulkBooking (quiet 200) booked 10) = bulkBookingItems booked
   \<and> find_batch (processaBulkBooking (quiet 200) booked 10) 10
       = Some (the (find_batch booked 10)\<lparr> b_completedAt := Some 200 \<rparr>)"
proof -
  have h: "healthy (quiet 200)"
    by (simp add: healthy_def quiet_def)
  have b: "find_batch booked 10 = Some (the (find_batch booked 10))"
    by code_simp
  have p: "pending_items booked 10 = []"
    by code_simp
  have same: "b_status (the (find_batch booked 10))
       = (if \<forall>i \<in> set (items_of booked 10). i_status i = I_FAILED then B_FAILED else B_COMPLETED)
     \<and> successfulItems (the (find_batch booked 10))
         = length (filter (\<lambda>i. i_status i = I_SUCCESS) (items_of booked 10))
     \<and> failedItems (the (find_batch booked 10))
         = length (filter (\<lambda>i. i_status i = I_FAILED) (items_of booked 10))"
    by code_simp
  note run = rerun_rewrites_batch[OF h b p]
  from run have "bulkBookingItems (processaBulkBooking (quiet 200) booked 10) = bulkBookingItems booked"
    by (rule conjunct1)
  moreover from run same have "find_batch (processaBulkBooking (quiet 200) booked 10) 10
       = Some (the (find_batch booked 10)\<lparr> b_completedAt := Some (now (quiet 200)) \<rparr>)"
    by blast
  moreover have "now (quiet 200) = 200"
    by (simp add: quiet_def)
  ultimately show ?thesis
    by simp
qed

text \<open>
  Claim C7 as it was stated fails there: with nothing pending, the second run moves
  \<open>completedAt\<close> from 100 to 200; and on a batch that failed and was then cancelled, it
  moves the status from CANCELLED to FAILED.
\<close>

theorem rerun_overwrites_completedAt:
  "pending_items booked 10 = []
   \<and> map b_completedAt (bulkBookings booked) = [Some 100]
   \<and> map b_completedAt (bulkBookings (processaBulkBooking (quiet 200) booked 10)) = [Some 200]
   \<and> pending_items called_off 10 = []
   \<and> map b_status (bulkBookings called_off) = [B_CANCELLED]
   \<and> map b_status (bulkBookings (processaBulkBooking (quiet 200) called_off 10)) = [B_FAILED]"
  by code_simp

subsection \<open>The counters of a finished batch\<close>









lemma length_new_items [simp]: "length (new_items bid base appointments) = length appointments"
  by (simp add: new_items_def)















subsection \<open>Submitting more than ten appointments\<close>


text \<open>
  The other refusals of the claim hold: without appointments the reply is status 400, for
  a customer that does not exist or is another agent's it is 404, and the store is left as
  it was.
\<close>

lemma submit_refusals_leave_store:
  assumes "cb_agent r = Some a"
  shows "cb_appointments r = None \<or> cb_appointments r = Some [] \<Longrightarrow>
           status_code (fst (createBulkBooking e d r)) = 400 \<and> snd (createBulkBooking e d r) = d"
    and "cb_appointments r = Some (x # xs) \<Longrightarrow> cb_customerId r = Some c \<Longrightarrow> \<not> falsy (cb_batchName r)
         \<Longrightarrow> \<not> throws e CustomerFindFirst
         \<Longrightarrow> find (\<lambda>k. c_id k = c \<and> c_agentId k = a) (customers d) = None
         \<Longrightarrow> createBulkBooking e d r = (Reject 404 ''Customer not found'', d)"
  using assms by (auto simp: createBulkBooking_def status_code_def Let_def)

end
